theory Spec2Isabelle
  imports Main "HOL-Library.Sublist"
begin

section \<open>Python string operations used by the agent\<close>

text \<open>
  Python \<open>str\<close> values are modelled as \<open>string\<close> (lists of \<open>char\<close>), one list element per
  character. The functions of this section are the library operations the source calls:
  \<open>sub in s\<close>, \<open>s.strip()\<close>, \<open>s.replace(old, new)\<close>, \<open>s.split(sep)\<close>, \<open>sep.join(xs)\<close>,
  slicing, \<open>str(int)\<close> and \<open>re.search\<close> for the two shapes of pattern that occur.
\<close>

fun contains :: "string \<Rightarrow> string \<Rightarrow> bool" where
  "contains sub [] = (sub = [])"
| "contains sub (c # cs) = (prefix sub (c # cs) \<or> contains sub cs)"

definition isspace :: "char \<Rightarrow> bool" where
  "isspace c = (c \<in> {CHR 0x09, CHR 0x0A, CHR 0x0B, CHR 0x0C, CHR 0x0D,
                       CHR 0x1C, CHR 0x1D, CHR 0x1E, CHR 0x1F, CHR 0x20, CHR 0x85, CHR 0xA0})"

definition strip :: "string \<Rightarrow> string" where
  "strip s = rev (dropWhile isspace (rev (dropWhile isspace s)))"

text \<open>
  \<open>s.replace(old, new)\<close>: scan from the left, replace every non-overlapping occurrence.
  With an empty \<open>old\<close> Python puts \<open>new\<close> before every character and at the end.
\<close>

fun replace_str :: "string \<Rightarrow> string \<Rightarrow> string \<Rightarrow> string" where
  "replace_str [] old new = (if old = [] then new else [])"
| "replace_str (c # cs) old new =
     (if old = [] then new @ c # replace_str cs old new
      else if prefix old (c # cs) then new @ replace_str (drop (length old) (c # cs)) old new
      else c # replace_str cs old new)"

fun split_str :: "char \<Rightarrow> string \<Rightarrow> string list" where
  "split_str sep [] = [[]]"
| "split_str sep (c # cs) =
     (if c = sep then [] # split_str sep cs
      else (case split_str sep cs of [] \<Rightarrow> [[c]] | l # ls \<Rightarrow> (c # l) # ls))"

fun join_str :: "string \<Rightarrow> string list \<Rightarrow> string" where
  "join_str sep [] = []"
| "join_str sep [x] = x"
| "join_str sep (x # y # ys) = x @ sep @ join_str sep (y # ys)"

text \<open>Slices \<open>s[:k]\<close> and \<open>s[k:]\<close>; a negative bound counts from the end, and bounds are clamped.\<close>

definition slice_to :: "string \<Rightarrow> int \<Rightarrow> string" where
  "slice_to s k = (if k < 0 then take (nat (int (length s) + k)) s else take (nat k) s)"

definition slice_from :: "string \<Rightarrow> int \<Rightarrow> string" where
  "slice_from s k = (if k < 0 then drop (nat (int (length s) + k)) s else drop (nat k) s)"

fun str_nat :: "nat \<Rightarrow> string" where
  "str_nat n = (if n < 10 then [''0123456789'' ! n]
                else str_nat (n div 10) @ [''0123456789'' ! (n mod 10)])"

definition str_int :: "int \<Rightarrow> string" where
  "str_int i = (if i < 0 then CHR ''-'' # str_nat (nat (- i)) else str_nat (nat i))"

subsection \<open>Regular expression search\<close>

text \<open>
  The source searches with three patterns of the shape \<open>OPEN(.*?)CLOSE\<close> and two of the shape
  \<open>OPEN.*CLOSE\<close> resp. \<open>OPEN(.*)CLOSE\<close>, all with \<open>re.DOTALL\<close>, so the dot matches every
  character. \<open>re.search\<close> tries the start positions from left to right and returns the first
  position at which the pattern matches. At a fixed start, the lazy \<open>.*?\<close> takes the shortest
  text after which \<open>CLOSE\<close> follows (the first occurrence of \<open>CLOSE\<close>), the greedy \<open>.*\<close> the
  longest (the last occurrence of \<open>CLOSE\<close>).

  \<open>split_first sub s\<close> and \<open>split_last sub s\<close> give the text before and after the first
  resp. last occurrence of \<open>sub\<close> in \<open>s\<close>. A match is returned as \<open>(pre, g, post)\<close>: the text
  before the match, group 1, and the text after the match; group 0 is \<open>OPEN @ g @ CLOSE\<close>.
\<close>

fun split_first :: "string \<Rightarrow> string \<Rightarrow> (string \<times> string) option" where
  "split_first sub [] = (if sub = [] then Some ([], []) else None)"
| "split_first sub (c # cs) =
     (if prefix sub (c # cs) then Some ([], drop (length sub) (c # cs))
      else (case split_first sub cs of
              Some (g, post) \<Rightarrow> Some (c # g, post)
            | None \<Rightarrow> None))"

fun split_last :: "string \<Rightarrow> string \<Rightarrow> (string \<times> string) option" where
  "split_last sub [] = (if sub = [] then Some ([], []) else None)"
| "split_last sub (c # cs) =
     (case split_last sub cs of
        Some (g, post) \<Rightarrow> Some (c # g, post)
      | None \<Rightarrow> if prefix sub (c # cs) then Some ([], drop (length sub) (c # cs)) else None)"

definition match_lazy :: "string \<Rightarrow> string \<Rightarrow> string \<Rightarrow> (string \<times> string) option" where
  "match_lazy opn cls s =
     (if prefix opn s then split_first cls (drop (length opn) s) else None)"

definition match_greedy :: "string \<Rightarrow> string \<Rightarrow> string \<Rightarrow> (string \<times> string) option" where
  "match_greedy opn cls s =
     (if prefix opn s then split_last cls (drop (length opn) s) else None)"

fun re_search :: "(string \<Rightarrow> (string \<times> string) option) \<Rightarrow> string
                    \<Rightarrow> (string \<times> string \<times> string) option" where
  "re_search m [] = (case m [] of Some (g, post) \<Rightarrow> Some ([], g, post) | None \<Rightarrow> None)"
| "re_search m (c # cs) =
     (case m (c # cs) of
        Some (g, post) \<Rightarrow> Some ([], g, post)
      | None \<Rightarrow> (case re_search m cs of
                   Some (pre, g, post) \<Rightarrow> Some (c # pre, g, post)
                 | None \<Rightarrow> None))"

section \<open>Events, messages and task state\<close>

text \<open>
  The action and observation classes are imported by the source; their fields are the ones the
  source reads or passes to the constructors. \<open>AgentFinishAction\<close> is built with and without a
  thought, so the thought is optional. \<open>OtherAction\<close> and \<open>OtherObservation\<close> stand for the
  event classes the agent does not name.
\<close>

datatype action =
    CmdRunAction (command: string) (thought: string)
  | IPythonRunCellAction (code: string) (thought: string) (kernel_init_code: string)
  | BrowseInteractiveAction (browser_actions: string) (thought: string)
  | MessageAction (msg_content: string) (wait_for_response: bool)
  | AgentSummarizeAction (summary: string)
  | AgentFinishAction (finish_thought: "string option")
  | OtherAction

datatype observation =
    CmdOutputObservation (obs_content: string) (command_id: int) (exit_code: int)
  | IPythonRunCellObservation (obs_content: string)
  | BrowserOutputObservation (obs_content: string)
  | SummaryObservation (obs_content: string)
  | OtherObservation

text \<open>An event of the history: an action with its \<open>source\<close> attribute, or an observation.\<close>

datatype event =
    Action (source: string) action
  | Observation observation

record message =
  role :: string
  content :: string

record state =
  history :: "event list"
  iteration :: int
  max_iterations :: int
  num_of_chars :: int

section \<open>Response decoding\<close>

definition parse_response :: "string \<Rightarrow> string" where
  "parse_response response_content =
     fold (\<lambda>lang action.
             if contains (''<execute_'' @ lang @ ''>'') action
                \<and> \<not> contains (''</execute_'' @ lang @ ''>'') action
             then action @ ''</execute_'' @ lang @ ''>''
             else action)
          [''bash'', ''ipython'', ''browse''] response_content"

definition jupyter_kernel_init_code :: string where
  "jupyter_kernel_init_code = ''from agentskills import *''"

text \<open>The decoding part of \<open>CodeActAgent.step\<close>: from \<open>action_str\<close> to the returned action.\<close>

definition decode_action :: "string \<Rightarrow> action" where
  "decode_action action_str =
     (case re_search (match_greedy ''<finish>'' ''</finish>'') action_str of
        Some (pre, g, post) \<Rightarrow>
          AgentFinishAction
            (Some (strip (replace_str action_str (''<finish>'' @ g @ ''</finish>'') [])))
      | None \<Rightarrow>
     (case re_search (match_lazy ''<execute_bash>'' ''</execute_bash>'') action_str of
        Some (pre, g, post) \<Rightarrow>
          (let thought = strip (replace_str action_str
                                  (''<execute_bash>'' @ g @ ''</execute_bash>'') []);
               command_group = strip g
           in if strip command_group = ''exit'' then AgentFinishAction None
              else CmdRunAction command_group thought)
      | None \<Rightarrow>
     (case re_search (match_lazy ''<execute_ipython>'' ''</execute_ipython>'') action_str of
        Some (pre, g, post) \<Rightarrow>
          (let code_group = strip g;
               thought = strip (replace_str action_str
                                  (''<execute_ipython>'' @ g @ ''</execute_ipython>'') [])
           in IPythonRunCellAction code_group thought jupyter_kernel_init_code)
      | None \<Rightarrow>
     (case re_search (match_greedy ''<execute_browse>'' ''</execute_browse>'') action_str of
        Some (pre, g, post) \<Rightarrow>
          (let browse_actions = strip g;
               thought = strip (replace_str action_str
                                  (''<execute_browse>'' @ g @ ''</execute_browse>'') [])
           in BrowseInteractiveAction browse_actions thought)
      | None \<Rightarrow> MessageAction action_str True))))"

section \<open>Rendering the history\<close>

definition truncation_marker :: string where
  "truncation_marker = ''\<newline>[... Observation truncated due to length ...]\<newline>''"

text \<open>\<open>max_chars\<close> is a Python \<open>int\<close>; \<open>//\<close> is floor division, as \<open>div\<close> on \<open>int\<close> is.\<close>

definition truncate_observation :: "string \<Rightarrow> int \<Rightarrow> string" where
  "truncate_observation observation max_chars =
     (if int (length observation) \<le> max_chars then observation
      else (let half = max_chars div 2
            in slice_to observation half @ truncation_marker @ slice_from observation (- half)))"

definition default_max_chars :: int where
  "default_max_chars = 10000"

definition action_to_str :: "action \<Rightarrow> string" where
  "action_to_str a =
     (case a of
        CmdRunAction cmd th \<Rightarrow>
          th @ ''\<newline><execute_bash>\<newline>'' @ cmd @ ''\<newline></execute_bash>''
      | IPythonRunCellAction cd th k \<Rightarrow>
          th @ ''\<newline><execute_ipython>\<newline>'' @ cd @ ''\<newline></execute_ipython>''
      | BrowseInteractiveAction b th \<Rightarrow>
          th @ ''\<newline><execute_browse>\<newline>'' @ b @ ''\<newline></execute_browse>''
      | MessageAction c w \<Rightarrow> c
      | _ \<Rightarrow> [])"

definition get_action_message :: "string \<Rightarrow> action \<Rightarrow> message option" where
  "get_action_message src a =
     (case a of
        AgentFinishAction th \<Rightarrow> None
      | OtherAction \<Rightarrow> None
      | _ \<Rightarrow> Some \<lparr>role = (if src = ''user'' then ''user'' else ''assistant''),
                    content = action_to_str a\<rparr>)"

definition image_marker :: string where
  "image_marker = ''![image](data:image/png;base64,''"

definition image_placeholder :: string where
  "image_placeholder = ''![image](data:image/png;base64, ...) already displayed to user''"

definition get_observation_message :: "observation \<Rightarrow> message option" where
  "get_observation_message obs =
     (case obs of
        CmdOutputObservation c cid ec \<Rightarrow>
          Some \<lparr>role = ''user'',
                content = (''OBSERVATION:\<newline>'' @ truncate_observation c default_max_chars)
                          @ ''\<newline>[Command '' @ str_int cid
                          @ '' finished with exit code '' @ str_int ec @ '']]''\<rparr>
      | IPythonRunCellObservation c \<Rightarrow>
          (let content0 = ''OBSERVATION:\<newline>'' @ c;
               splitted = map (\<lambda>line. if contains image_marker line then image_placeholder
                                        else line)
                              (split_str CHR ''\<newline>'' content0);
               content1 = join_str ''\<newline>'' splitted
           in Some \<lparr>role = ''user'',
                    content = truncate_observation content1 default_max_chars\<rparr>)
      | BrowserOutputObservation c \<Rightarrow>
          Some \<lparr>role = ''user'',
                content = ''OBSERVATION:\<newline>'' @ truncate_observation c default_max_chars\<rparr>
      | SummaryObservation c \<Rightarrow> Some \<lparr>role = ''user'', content = c\<rparr>
      | OtherObservation \<Rightarrow> None)"

text \<open>
  The prompt texts come from a module that is not part of the source at hand, so they are
  fields of the agent; so are the collaborators the agent calls: the completion service, the
  memory condenser, the configured token limit and the history's splice operation.
  The completion service is a script: its answer to the \<open>n\<close>-th call (counted from 0) of the
  turn, given the messages of that call.
\<close>

datatype completion_result =
    Response string
  | ContextWindowExceededError
  | OtherFailure

record condenser =
  condense :: "event list \<Rightarrow> action option"
  is_over_token_limit :: "message list \<Rightarrow> bool"

record agent =
  SYSTEM_PREFIX :: string
  GITHUB_MESSAGE :: string
  COMMAND_DOCS :: string
  SYSTEM_SUFFIX :: string
  EXAMPLES :: string
  max_input_tokens :: "int option"
  memory_condenser :: "condenser option"
  completion :: "nat \<Rightarrow> message list \<Rightarrow> completion_result"
  replace_events_with_summary :: "event list \<Rightarrow> action \<Rightarrow> event list"

definition ENABLE_GITHUB :: bool where
  "ENABLE_GITHUB = True"

definition get_system_message :: "agent \<Rightarrow> string" where
  "get_system_message ag =
     (if ENABLE_GITHUB
      then SYSTEM_PREFIX ag @ ''\<newline>'' @ GITHUB_MESSAGE ag @ ''\<newline>\<newline>''
           @ COMMAND_DOCS ag @ ''\<newline>\<newline>'' @ SYSTEM_SUFFIX ag
      else SYSTEM_PREFIX ag @ ''\<newline>\<newline>'' @ COMMAND_DOCS ag @ ''\<newline>\<newline>''
           @ SYSTEM_SUFFIX ag)"

definition in_context_example :: "agent \<Rightarrow> string" where
  "in_context_example ag =
     ''Here is an example of how you can interact with the environment for task solving:\<newline>''
     @ EXAMPLES ag @ ''\<newline>\<newline>NOW, LET'S START!''"

definition event_message :: "event \<Rightarrow> message option" where
  "event_message ev =
     (case ev of
        Action src a \<Rightarrow> get_action_message src a
      | Observation obs \<Rightarrow> get_observation_message obs)"

text \<open>
  \<open>next((m for m in reversed(messages) if m['role'] == 'user'), None)\<close> yields the last
  message with role \<open>user\<close>. It is an object of the list, which the renderer then updates in
  place: \<open>latest_user_index\<close> is its position. Every message is a dictionary of its own, so
  the update changes this one position only.
\<close>

definition latest_user_message :: "message list \<Rightarrow> message option" where
  "latest_user_message messages = find (\<lambda>m. role m = ''user'') (rev messages)"

fun latest_user_index :: "message list \<Rightarrow> nat option" where
  "latest_user_index [] = None"
| "latest_user_index (m # ms) =
     (case latest_user_index ms of
        Some i \<Rightarrow> Some (Suc i)
      | None \<Rightarrow> if role m = ''user'' then Some 0 else None)"

definition reminder :: "state \<Rightarrow> string" where
  "reminder st = ''\<newline>\<newline>ENVIRONMENT REMINDER: You have ''
                 @ str_int (max_iterations st - iteration st)
                 @ '' turns left to complete the task.''"

definition initial_messages :: "agent \<Rightarrow> message list" where
  "initial_messages ag =
     [\<lparr>role = ''system'', content = get_system_message ag\<rparr>,
      \<lparr>role = ''user'', content = in_context_example ag\<rparr>]"

definition get_messages :: "agent \<Rightarrow> state \<Rightarrow> message list" where
  "get_messages ag st =
     (let messages = initial_messages ag @ List.map_filter event_message (history st)
      in case latest_user_message messages of
           None \<Rightarrow> messages
         | Some m \<Rightarrow>
             if strip (content m) = ''/exit'' then messages
             else (case latest_user_index messages of
                     None \<Rightarrow> messages
                   | Some i \<Rightarrow> messages[i := m\<lparr>content := content m @ reminder st\<rparr>]))"

section \<open>Overflow recovery and the turn\<close>

datatype error =
    ContextWindowLimit
  | CompletionFailure
  | NoResponse

definition retry_with_condense :: "agent \<Rightarrow> state \<Rightarrow> error + state" where
  "retry_with_condense ag st =
     (case memory_condenser ag of
        None \<Rightarrow> Inl ContextWindowLimit
      | Some mc \<Rightarrow>
          (case condense mc (history st) of
             None \<Rightarrow> Inl ContextWindowLimit
           | Some summary_action \<Rightarrow>
               Inr (st\<lparr>history := replace_events_with_summary ag (history st) summary_action\<rparr>)))"

text \<open>
  The \<open>while not response and attempt < 3\<close> loop of \<open>step\<close>. The source never assigns
  \<open>attempt\<close> inside the loop, so every iteration passes it on unchanged. \<open>calls\<close> counts the
  calls of the completion service made so far in the turn. The loop need not end, hence the
  result is optional: \<open>None\<close> means that the loop runs forever. A result is the response with
  the messages that were sent, or the error that leaves the loop, together with the state and
  the number of completion calls made.
\<close>

partial_function (option) completion_loop ::
  "agent \<Rightarrow> int \<Rightarrow> nat \<Rightarrow> state \<Rightarrow> message list
     \<Rightarrow> ((error + string \<times> message list) \<times> state \<times> nat) option"
where
  "completion_loop ag attempt calls st messages =
     (if \<not> attempt < 3 then Some (Inl NoResponse, st, calls)
      else (case completion ag calls messages of
              Response r \<Rightarrow> Some (Inr (r, messages), st, Suc calls)
            | OtherFailure \<Rightarrow> Some (Inl CompletionFailure, st, Suc calls)
            | ContextWindowExceededError \<Rightarrow>
                (if memory_condenser ag \<noteq> None
                 then (case retry_with_condense ag st of
                         Inl e \<Rightarrow> Some (Inl e, st, Suc calls)
                       | Inr st' \<Rightarrow>
                           completion_loop ag attempt (Suc calls) st' (get_messages ag st'))
                 else completion_loop ag attempt (Suc calls) st messages)))"

definition preemptive_condense :: "agent \<Rightarrow> message list \<Rightarrow> bool" where
  "preemptive_condense ag messages =
     (max_input_tokens ag \<noteq> None
      \<and> (case memory_condenser ag of
           None \<Rightarrow> False
         | Some mc \<Rightarrow> is_over_token_limit mc messages))"

text \<open>
  One turn. The result is the action that \<open>step\<close> returns or the error it raises, the task
  state as the turn leaves it, and the number of calls of the completion service.
\<close>

definition step :: "agent \<Rightarrow> state \<Rightarrow> ((error + action) \<times> state \<times> nat) option" where
  "step ag st =
     (let messages = get_messages ag st
      in case (if preemptive_condense ag messages
               then (case retry_with_condense ag st of
                       Inl e \<Rightarrow> Inl e
                     | Inr st' \<Rightarrow> Inr (st', get_messages ag st'))
               else Inr (st, messages)) of
           Inl e \<Rightarrow> Some (Inl e, st, 0)
         | Inr (st1, messages1) \<Rightarrow>
             if (case latest_user_message messages1 of
                   None \<Rightarrow> False
                 | Some m \<Rightarrow> strip (content m) = ''/exit'')
             then Some (Inr (AgentFinishAction None), st1, 0)
             else (case completion_loop ag 0 0 st1 messages1 of
                     None \<Rightarrow> None
                   | Some (Inl e, st2, n) \<Rightarrow> Some (Inl e, st2, n)
                   | Some (Inr (response, messages2), st2, n) \<Rightarrow>
                       (let action_str = parse_response response;
                            st3 = st2\<lparr>num_of_chars := num_of_chars st2
                                       + sum_list (map (\<lambda>m. int (length (content m))) messages2)
                                       + int (length action_str)\<rparr>
                        in Some (Inr (decode_action action_str), st3, n))))"

section \<open>Concrete collaborators\<close>

text \<open>
  Scripted collaborators for the concrete runs below: a condenser that always has a summary,
  one that never has, and completion services that raise the context-window error on the
  first \<open>k\<close> calls, or on every call.
\<close>

definition summarizing_condenser :: condenser where
  "summarizing_condenser =
     \<lparr>condense = (\<lambda>events. Some (AgentSummarizeAction ''summary'')),
      is_over_token_limit = (\<lambda>messages. False)\<rparr>"

definition exhausted_condenser :: condenser where
  "exhausted_condenser =
     \<lparr>condense = (\<lambda>events. None),
      is_over_token_limit = (\<lambda>messages. True)\<rparr>"

definition overflowing_agent :: "nat \<Rightarrow> agent" where
  "overflowing_agent k =
     \<lparr>SYSTEM_PREFIX = [], GITHUB_MESSAGE = [], COMMAND_DOCS = [], SYSTEM_SUFFIX = [],
      EXAMPLES = [], max_input_tokens = None,
      memory_condenser = Some summarizing_condenser,
      completion = (\<lambda>n messages. if n < k then ContextWindowExceededError
                                    else Response ''done''),
      replace_events_with_summary =
        (\<lambda>events summary_action. [Action ''agent'' summary_action])\<rparr>"

definition always_overflowing_agent :: agent where
  "always_overflowing_agent =
     \<lparr>SYSTEM_PREFIX = [], GITHUB_MESSAGE = [], COMMAND_DOCS = [], SYSTEM_SUFFIX = [],
      EXAMPLES = [], max_input_tokens = None,
      memory_condenser = Some summarizing_condenser,
      completion = (\<lambda>n messages. ContextWindowExceededError),
      replace_events_with_summary =
        (\<lambda>events summary_action. [Action ''agent'' summary_action])\<rparr>"

definition exhausted_agent :: agent where
  "exhausted_agent =
     \<lparr>SYSTEM_PREFIX = [], GITHUB_MESSAGE = [], COMMAND_DOCS = [], SYSTEM_SUFFIX = [],
      EXAMPLES = [], max_input_tokens = Some 1,
      memory_condenser = Some exhausted_condenser,
      completion = (\<lambda>n messages. ContextWindowExceededError),
      replace_events_with_summary = (\<lambda>events summary_action. events)\<rparr>"

definition empty_state :: state where
  "empty_state = \<lparr>history = [], iteration = 0, max_iterations = 100, num_of_chars = 0\<rparr>"

text \<open>A task whose only event is the user message \<open>/exit\<close>.\<close>

definition exit_state :: state where
  "exit_state = \<lparr>history = [Action ''user'' (MessageAction ''/exit'' False)],
                  iteration = 3, max_iterations = 100, num_of_chars = 0\<rparr>"


section \<open>The retry loop\<close>

lemma loop_overflow_step:
  assumes "attempt < 3" "completion ag calls messages = ContextWindowExceededError"
    "memory_condenser ag = Some mc" "condense mc (history st) = Some a"
  shows "completion_loop ag attempt calls st messages =
         completion_loop ag attempt (Suc calls)
           (st\<lparr>history := replace_events_with_summary ag (history st) a\<rparr>)
           (get_messages ag (st\<lparr>history := replace_events_with_summary ag (history st) a\<rparr>))"
  using assms by (subst completion_loop.simps) (simp add: retry_with_condense_def)

lemma loop_response:
  assumes "attempt < 3" "completion ag calls messages = Response r"
  shows "completion_loop ag attempt calls st messages = Some (Inr (r, messages), st, Suc calls)"
  using assms by (subst completion_loop.simps) simp

lemma loop_four_calls:
  "\<exists>st' ms'. completion_loop (overflowing_agent 3) 0 0 st ms
               = Some (Inr (''done'', ms'), st', 4)"
proof -
  let ?ag = "overflowing_agent 3"
  have mc: "memory_condenser ?ag = Some summarizing_condenser"
    by (simp add: overflowing_agent_def)
  have cond: "\<And>h. condense summarizing_condenser h = Some (AgentSummarizeAction ''summary'')"
    by (simp add: summarizing_condenser_def)
  have ov: "\<And>n ms. n < 3 \<Longrightarrow> completion ?ag n ms = ContextWindowExceededError"
    by (simp add: overflowing_agent_def)
  have resp: "\<And>ms. completion ?ag 3 ms = Response ''done''"
    by (simp add: overflowing_agent_def)
  have l3: "\<And>st ms. completion_loop ?ag 0 3 st ms = Some (Inr (''done'', ms), st, 4)"
    using loop_response [of 0 ?ag 3 _ "''done''"] resp by simp
  have l2: "\<And>st ms. \<exists>st' ms'. completion_loop ?ag 0 2 st ms
                                = Some (Inr (''done'', ms'), st', 4)"
    using loop_overflow_step [of 0 ?ag 2, OF _ ov mc cond] l3 by (simp add: numeral_3_eq_3)
  have l1: "\<And>st ms. \<exists>st' ms'. completion_loop ?ag 0 1 st ms
                                = Some (Inr (''done'', ms'), st', 4)"
    using loop_overflow_step [of 0 ?ag 1, OF _ ov mc cond] l2 by (simp add: numeral_2_eq_2)
  show ?thesis
    using loop_overflow_step [of 0 ?ag 0, OF _ ov mc cond] l1 by simp
qed

lemma loop_never_returns:
  assumes "completion_loop ag attempt calls st messages = Some y"
  shows "\<not> (ag = always_overflowing_agent \<and> attempt < 3)"
proof (rule completion_loop.raw_induct
         [where P = "\<lambda>ag attempt calls st messages y.
                       \<not> (ag = always_overflowing_agent \<and> attempt < 3)",
          OF _ assms])
  fix f :: "agent \<Rightarrow> int \<Rightarrow> nat \<Rightarrow> state \<Rightarrow> message list
              \<Rightarrow> ((error + string \<times> message list) \<times> state \<times> nat) option"
  fix ag attempt calls st messages y
  assume IH: "\<And>ag attempt calls st messages y. f ag attempt calls st messages = Some y
                \<Longrightarrow> \<not> (ag = always_overflowing_agent \<and> attempt < 3)"
  assume body: "(if \<not> attempt < 3 then Some (Inl NoResponse, st, calls)
      else case completion ag calls messages of
           Response r \<Rightarrow> Some (Inr (r, messages), st, Suc calls)
           | ContextWindowExceededError \<Rightarrow>
               if memory_condenser ag \<noteq> None
               then case retry_with_condense ag st of
                    Inl e \<Rightarrow> Some (Inl e, st, Suc calls)
                    | Inr st' \<Rightarrow> f ag attempt (Suc calls) st' (get_messages ag st')
               else f ag attempt (Suc calls) st messages
           | OtherFailure \<Rightarrow> Some (Inl CompletionFailure, st, Suc calls)) = Some y"
  show "\<not> (ag = always_overflowing_agent \<and> attempt < 3)"
  proof
    assume A: "ag = always_overflowing_agent \<and> attempt < 3"
    then have "f ag attempt (Suc calls)
                 (st\<lparr>history := [Action ''agent'' (AgentSummarizeAction ''summary'')]\<rparr>)
                 (get_messages ag
                    (st\<lparr>history := [Action ''agent'' (AgentSummarizeAction ''summary'')]\<rparr>))
               = Some y"
      using body
      by (simp add: always_overflowing_agent_def summarizing_condenser_def
                    retry_with_condense_def)
    from IH [OF this] A show False by simp
  qed
qed

text \<open>
  C1 (the turn calls the completion service at most 3 times and the retry loop ends): the
  source does not have this property. With a completion service that raises the
  context-window error on its first three calls and a condenser that always has a summary,
  the turn on the empty history calls the service four times and returns the decoded fourth
  answer; with a service that raises the error on every call the turn never returns.
\<close>

theorem C1_retry_loop_not_bounded:
  "map_option (\<lambda>(r, st, n). (r, n)) (step (overflowing_agent 3) empty_state)
     = Some (Inr (MessageAction ''done'' True), 4)
   \<and> step always_overflowing_agent empty_state = None"
proof -
  let ?ag = "overflowing_agent 3" and ?al = always_overflowing_agent
  have pre: "\<not> preemptive_condense ?ag (get_messages ?ag empty_state)"
    by (simp add: preemptive_condense_def overflowing_agent_def)
  have lum: "latest_user_message (get_messages ?ag empty_state) \<noteq> None
     \<and> strip (content (the (latest_user_message (get_messages ?ag empty_state)))) \<noteq> ''/exit''"
    by code_simp
  have dec: "decode_action (parse_response ''done'') = MessageAction ''done'' True"
    by code_simp
  obtain st' ms' where L: "completion_loop ?ag 0 0 empty_state (get_messages ?ag empty_state)
                             = Some (Inr (''done'', ms'), st', 4)"
    using loop_four_calls by blast
  have four: "map_option (\<lambda>(r, st, n). (r, n)) (step ?ag empty_state)
                = Some (Inr (MessageAction ''done'' True), 4)"
    using pre lum L dec by (auto simp: step_def Let_def split: option.splits)
  have loop: "completion_loop ?al 0 0 empty_state (get_messages ?al empty_state) = None"
    using loop_never_returns [of ?al 0 0]
    by (cases "completion_loop ?al 0 0 empty_state (get_messages ?al empty_state)") auto
  have pre': "\<not> preemptive_condense ?al (get_messages ?al empty_state)"
    by (simp add: preemptive_condense_def always_overflowing_agent_def)
  have lum': "latest_user_message (get_messages ?al empty_state) \<noteq> None
     \<and> strip (content (the (latest_user_message (get_messages ?al empty_state)))) \<noteq> ''/exit''"
    by code_simp
  have never: "step ?al empty_state = None"
    using loop pre' lum' by (auto simp: step_def Let_def split: option.splits)
  show ?thesis using four never by blast
qed



section \<open>Searching and replacing in strings\<close>

lemma split_last_None: "split_last sub s = None \<Longrightarrow> \<not> prefix sub (drop k s)"
proof (induction s arbitrary: k)
  case Nil
  then show ?case by (simp split: if_splits)
next
  case (Cons c cs)
  then show ?case by (cases k) (auto split: option.splits if_splits)
qed

lemma split_last_Some:
  "sub \<noteq> [] \<Longrightarrow> split_last sub s = Some (g, post) \<Longrightarrow>
     s = g @ sub @ post \<and> (\<forall>k > length g. \<not> prefix sub (drop k s))"
proof (induction s arbitrary: g)
  case Nil
  then show ?case by (simp split: if_splits)
next
  case (Cons c cs)
  show ?case
  proof (cases "split_last sub cs")
    case None
    with Cons.prems have p: "prefix sub (c # cs)" and g: "g = []"
      and post: "post = drop (length sub) (c # cs)"
      by (auto split: if_splits)
    from p have "c # cs = sub @ post" unfolding post
      by (metis append_eq_conv_conj prefixE)
    moreover have "\<forall>k > 0. \<not> prefix sub (drop k (c # cs))"
      using split_last_None [OF None] by (auto simp: gr0_conv_Suc)
    ultimately show ?thesis using g by simp
  next
    case (Some r)
    obtain g' post' where r: "r = (g', post')" by (cases r)
    with Some Cons.prems have g: "g = c # g'" and post: "post' = post" by auto
    from Cons.IH [of g'] Some r post Cons.prems(1)
    have ih: "cs = g' @ sub @ post" "\<forall>k > length g'. \<not> prefix sub (drop k cs)" by auto
    have "\<forall>k > length g. \<not> prefix sub (drop k (c # cs))"
    proof (intro allI impI)
      fix k assume "length g < k"
      then obtain k' where "k = Suc k'" "length g' < k'" using g by (cases k) auto
      then show "\<not> prefix sub (drop k (c # cs))" using ih(2) by simp
    qed
    then show ?thesis using ih(1) g by simp
  qed
qed

lemma split_first_None: "split_first sub s = None \<Longrightarrow> \<not> prefix sub (drop k s)"
proof (induction s arbitrary: k)
  case Nil
  then show ?case by (simp split: if_splits)
next
  case (Cons c cs)
  then show ?case by (cases k) (auto split: option.splits if_splits)
qed

lemma split_first_Some:
  "split_first sub s = Some (g, post) \<Longrightarrow>
     s = g @ sub @ post \<and> (\<forall>k < length g. \<not> prefix sub (drop k s))"
proof (induction s arbitrary: g)
  case Nil
  then show ?case by (simp split: if_splits)
next
  case (Cons c cs)
  show ?case
  proof (cases "prefix sub (c # cs)")
    case True
    with Cons.prems have g: "g = []" and post: "post = drop (length sub) (c # cs)" by auto
    from True have "c # cs = sub @ post" unfolding post
      by (metis append_eq_conv_conj prefixE)
    then show ?thesis using g by simp
  next
    case False
    with Cons.prems obtain g' where s: "split_first sub cs = Some (g', post)" and g: "g = c # g'"
      by (auto split: option.splits)
    from Cons.IH [OF s]
    have ih: "cs = g' @ sub @ post" "\<forall>k < length g'. \<not> prefix sub (drop k cs)" by auto
    have "\<forall>k < length g. \<not> prefix sub (drop k (c # cs))"
    proof (intro allI impI)
      fix k assume k: "k < length g"
      show "\<not> prefix sub (drop k (c # cs))"
      proof (cases k)
        case 0
        then show ?thesis using False by simp
      next
        case (Suc k')
        then show ?thesis using k g ih(2) by simp
      qed
    qed
    then show ?thesis using ih(1) g by simp
  qed
qed

lemma re_search_None: "re_search m s = None \<Longrightarrow> m (drop k s) = None"
proof (induction s arbitrary: k)
  case Nil
  then show ?case by (simp split: option.splits)
next
  case (Cons c cs)
  then show ?case by (cases k) (auto split: option.splits)
qed

lemma re_search_Some:
  "re_search m s = Some (pre, g, post) \<Longrightarrow>
     (\<exists>rest. s = pre @ rest \<and> m rest = Some (g, post))
     \<and> (\<forall>k < length pre. m (drop k s) = None)"
proof (induction s arbitrary: pre)
  case Nil
  then show ?case by (auto split: option.splits)
next
  case (Cons c cs)
  show ?case
  proof (cases "m (c # cs)")
    case None
    with Cons.prems obtain pre' where s: "re_search m cs = Some (pre', g, post)"
      and pre: "pre = c # pre'"
      by (auto split: option.splits)
    from Cons.IH [OF s] obtain rest where
      ih: "cs = pre' @ rest" "m rest = Some (g, post)" "\<forall>k < length pre'. m (drop k cs) = None"
      by auto
    have "\<forall>k < length pre. m (drop k (c # cs)) = None"
    proof (intro allI impI)
      fix k assume k: "k < length pre"
      show "m (drop k (c # cs)) = None"
      proof (cases k)
        case 0
        then show ?thesis using None by simp
      next
        case (Suc k')
        then show ?thesis using k pre ih(3) by simp
      qed
    qed
    then show ?thesis using ih(1,2) pre by simp
  next
    case (Some r)
    with Cons.prems show ?thesis by (auto split: prod.splits)
  qed
qed

lemma replace_str_skip:
  "old \<noteq> [] \<Longrightarrow> (\<forall>k < length pre. \<not> prefix old (drop k (pre @ rest)))
     \<Longrightarrow> replace_str (pre @ rest) old new = pre @ replace_str rest old new"
proof (induction pre)
  case Nil
  then show ?case by simp
next
  case (Cons c pre)
  have "\<not> prefix old (c # pre @ rest)" using Cons.prems(2) by force
  moreover have "\<forall>k < length pre. \<not> prefix old (drop k (pre @ rest))"
    using Cons.prems(2) by force
  ultimately show ?case using Cons by simp
qed

lemma replace_str_none:
  "old \<noteq> [] \<Longrightarrow> (\<forall>k. \<not> prefix old (drop k s)) \<Longrightarrow> replace_str s old new = s"
proof (induction s)
  case Nil
  then show ?case by simp
next
  case (Cons c cs)
  have "\<not> prefix old (c # cs)" using Cons.prems(2) [rule_format, of 0] by simp
  moreover have "\<forall>k. \<not> prefix old (drop k cs)"
    using Cons.prems(2) [rule_format, of "Suc k" for k] by simp
  ultimately show ?case using Cons by simp
qed

lemma replace_str_hit:
  "old \<noteq> [] \<Longrightarrow> replace_str (old @ rest) old new = new @ replace_str rest old new"
  by (cases old) auto

lemma prefix_drop_decomp:
  "prefix x (drop k s) \<Longrightarrow> \<exists>p q. s = p @ x @ q \<and> length p = min k (length s)"
proof -
  assume "prefix x (drop k s)"
  then obtain q where "drop k s = x @ q" by (auto simp: prefix_def)
  then have "s = take k s @ x @ q" by (metis append_take_drop_id)
  then show ?thesis by (metis length_take min.commute)
qed

lemma match_greedy_occurs:
  "match_greedy opn cls (opn @ x @ cls @ y) \<noteq> None"
proof -
  have "split_last cls (x @ cls @ y) \<noteq> None"
  proof
    assume "split_last cls (x @ cls @ y) = None"
    from split_last_None [OF this, of "length x"] show False by simp
  qed
  then show ?thesis by (simp add: match_greedy_def)
qed

lemma match_lazy_occurs:
  "match_lazy opn cls (opn @ x @ cls @ y) \<noteq> None"
proof -
  have "split_first cls (x @ cls @ y) \<noteq> None"
  proof
    assume "split_first cls (x @ cls @ y) = None"
    from split_first_None [OF this, of "length x"] show False by simp
  qed
  then show ?thesis by (simp add: match_lazy_def)
qed

lemma re_search_occurs:
  assumes "m rest \<noteq> None"
  shows "re_search m (p @ rest) \<noteq> None"
proof
  assume "re_search m (p @ rest) = None"
  from re_search_None [OF this, of "length p"] assms show False by simp
qed

lemma greedy_search_span:
  assumes "re_search (match_greedy opn cls) a = Some (pre, g, post)"
  shows "a = pre @ opn @ g @ cls @ post"
proof -
  from re_search_Some [OF assms] obtain rest where
    r: "a = pre @ rest" "match_greedy opn cls rest = Some (g, post)" by auto
  from r(2) have p: "prefix opn rest" and s: "split_last cls (drop (length opn) rest) = Some (g, post)"
    by (auto simp: match_greedy_def split: if_splits)
  from p obtain t where t: "rest = opn @ t" by (auto simp: prefix_def)
  show ?thesis
  proof (cases "cls = []")
    case True
    have "\<And>s. split_last [] s = Some (s, [])"
    proof -
      fix s :: string show "split_last [] s = Some (s, [])" by (induction s) auto
    qed
    with s True t have "g = t" "post = []" by auto
    then show ?thesis using r(1) t True by simp
  next
    case False
    from split_last_Some [OF False s] t have "t = g @ cls @ post" by simp
    then show ?thesis using r(1) t by simp
  qed
qed

lemma greedy_replace:
  assumes "re_search (match_greedy opn cls) a = Some (pre, g, post)"
    and "cls \<noteq> []"
  shows "replace_str a (opn @ g @ cls) [] = pre @ post"
proof -
  let ?m = "opn @ g @ cls"
  have m: "?m \<noteq> []" using assms(2) by simp
  have a: "a = pre @ ?m @ post" using greedy_search_span [OF assms(1)] by simp
  from re_search_Some [OF assms(1)] obtain rest where
    r: "a = pre @ rest" "match_greedy opn cls rest = Some (g, post)"
       "\<forall>k < length pre. match_greedy opn cls (drop k a) = None" by auto
  from r(1) a have rest: "rest = ?m @ post" by simp
  have before: "\<forall>k < length pre. \<not> prefix ?m (drop k (pre @ ?m @ post))"
  proof (intro allI impI notI)
    fix k assume k: "k < length pre" and p: "prefix ?m (drop k (pre @ ?m @ post))"
    then obtain y where "drop k a = opn @ g @ cls @ y" using a by (auto simp: prefix_def)
    then have "match_greedy opn cls (drop k a) \<noteq> None" using match_greedy_occurs by metis
    with r(3) k show False by simp
  qed
  have sl: "split_last cls (g @ cls @ post) = Some (g, post)"
    using r(2) rest by (simp add: match_greedy_def)
  have after: "\<forall>k. \<not> prefix ?m (drop k post)"
  proof (intro allI notI)
    fix k assume "prefix ?m (drop k post)"
    then obtain y where y: "drop k post = opn @ g @ cls @ y" by (auto simp: prefix_def)
    have kl: "k \<le> length post" using y m by (cases "k \<le> length post") auto
    have "drop (length g + length cls + k + length opn + length g) (g @ cls @ post)
            = drop (length opn + length g) (drop k post)"
      by (simp add: add.commute add.left_commute)
    also have "\<dots> = cls @ y" using y by simp
    finally have "prefix cls (drop (length g + length cls + k + length opn + length g) (g @ cls @ post))"
      by simp
    moreover have "length g < length g + length cls + k + length opn + length g"
      using assms(2) by (cases cls) auto
    ultimately show False using split_last_Some [OF assms(2) sl] by blast
  qed
  have "replace_str a ?m [] = pre @ replace_str (?m @ post) ?m []"
    unfolding a using replace_str_skip [OF m before] by simp
  also have "\<dots> = pre @ replace_str post ?m []"
    using replace_str_hit [OF m, of post "[]"] by simp
  also have "\<dots> = pre @ post"
    using replace_str_none [OF m after] by simp
  finally show ?thesis .
qed

lemma strip_idem: "strip (strip s) = strip s"
proof -
  let ?u = "dropWhile isspace s"
  let ?v = "dropWhile isspace (rev ?u)"
  have v: "dropWhile isspace ?v = ?v" by simp
  have "dropWhile isspace (rev ?v) = rev ?v"
  proof (cases "?v = []")
    case True
    then show ?thesis by (metis dropWhile.simps(1) rev.simps(1))
  next
    case False
    have "rev ?u = takeWhile isspace (rev ?u) @ ?v" by simp
    then have "?u = rev ?v @ rev (takeWhile isspace (rev ?u))"
      by (metis rev_append rev_rev_ident)
    then have "hd ?u = hd (rev ?v)" using False by (metis hd_append2 rev_is_Nil_conv)
    moreover have "?u \<noteq> []" using False by (metis dropWhile.simps(1) rev.simps(1))
    ultimately have "\<not> isspace (hd (rev ?v))" using hd_dropWhile by metis
    then show ?thesis by (simp add: dropWhile_eq_self_iff)
  qed
  then show ?thesis by (simp add: strip_def)
qed


section \<open>The decoder\<close>

text \<open>
  C3 (finish wins over a shell command): when the decoded text contains a
  \<open><finish>...</finish>\<close> span and an \<open><execute_bash>...</execute_bash>\<close> span, the finish
  pattern matches, the text is the text before the match, the match and the text after it,
  and the decoder returns a finish action whose thought is the text without the match,
  trimmed.
\<close>

theorem C3_finish_has_priority:
  assumes "a = p1 @ ''<finish>'' @ b1 @ ''</finish>'' @ q1"
      and "a = p2 @ ''<execute_bash>'' @ b2 @ ''</execute_bash>'' @ q2"
  shows "\<exists>pre g post.
           re_search (match_greedy ''<finish>'' ''</finish>'') a = Some (pre, g, post)
         \<and> a = pre @ ''<finish>'' @ g @ ''</finish>'' @ post
         \<and> decode_action a = AgentFinishAction (Some (strip (pre @ post)))"
proof -
  let ?m = "match_greedy ''<finish>'' ''</finish>''"
  have "?m (''<finish>'' @ b1 @ ''</finish>'' @ q1) \<noteq> None" by (rule match_greedy_occurs)
  then have "re_search ?m a \<noteq> None" unfolding assms(1) by (rule re_search_occurs)
  then obtain pre g post where s: "re_search ?m a = Some (pre, g, post)" by auto
  have span: "a = pre @ ''<finish>'' @ g @ ''</finish>'' @ post"
    by (rule greedy_search_span [OF s])
  have rep: "replace_str a (''<finish>'' @ g @ ''</finish>'') [] = pre @ post"
    by (rule greedy_replace [OF s]) simp
  have "decode_action a = AgentFinishAction (Some (strip (pre @ post)))"
    using rep by (simp add: decode_action_def s del: replace_str.simps)
  with s span show ?thesis by blast
qed

theorem C3_finish_has_priority_witness:
  "''x<finish>ok</finish> y<execute_bash>ls</execute_bash>''
     = ''x'' @ ''<finish>'' @ ''ok'' @ ''</finish>'' @ '' y<execute_bash>ls</execute_bash>''
   \<and> ''x<finish>ok</finish> y<execute_bash>ls</execute_bash>''
     = ''x<finish>ok</finish> y'' @ ''<execute_bash>'' @ ''ls'' @ ''</execute_bash>'' @ []
   \<and> (\<exists>pre g post.
           re_search (match_greedy ''<finish>'' ''</finish>'')
             ''x<finish>ok</finish> y<execute_bash>ls</execute_bash>'' = Some (pre, g, post)
         \<and> ''x<finish>ok</finish> y<execute_bash>ls</execute_bash>''
             = pre @ ''<finish>'' @ g @ ''</finish>'' @ post
         \<and> decode_action ''x<finish>ok</finish> y<execute_bash>ls</execute_bash>''
             = AgentFinishAction (Some (strip (pre @ post))))"
proof -
  have h1: "''x<finish>ok</finish> y<execute_bash>ls</execute_bash>''
     = ''x'' @ ''<finish>'' @ ''ok'' @ ''</finish>'' @ '' y<execute_bash>ls</execute_bash>''"
    by simp
  have h2: "''x<finish>ok</finish> y<execute_bash>ls</execute_bash>''
     = ''x<finish>ok</finish> y'' @ ''<execute_bash>'' @ ''ls'' @ ''</execute_bash>'' @ []"
    by simp
  from C3_finish_has_priority [OF h1 h2] h1 h2 show ?thesis by blast
qed

text \<open>
  C4 (the command \<open>exit\<close> finishes): when the finish pattern does not match the decoded text
  and the lazy search for \<open><execute_bash>CMD</execute_bash>\<close> finds \<open>CMD = g\<close>, the decoder
  returns a finish action if the trimmed \<open>g\<close> is \<open>exit\<close>, and otherwise a run-command action
  whose command is the trimmed \<open>g\<close>.
\<close>

theorem C4_bash_exit_finishes:
  assumes "re_search (match_greedy ''<finish>'' ''</finish>'') a = None"
      and "re_search (match_lazy ''<execute_bash>'' ''</execute_bash>'') a = Some (pre, g, post)"
  shows "a = pre @ ''<execute_bash>'' @ g @ ''</execute_bash>'' @ post
       \<and> (strip g = ''exit'' \<longrightarrow> decode_action a = AgentFinishAction None)
       \<and> (strip g \<noteq> ''exit'' \<longrightarrow>
            (\<exists>th. decode_action a = CmdRunAction (strip g) th))"
proof -
  from re_search_Some [OF assms(2)] obtain rest where
    r: "a = pre @ rest" "match_lazy ''<execute_bash>'' ''</execute_bash>'' rest = Some (g, post)"
    by auto
  from r(2) have p: "prefix ''<execute_bash>'' rest"
    and s: "split_first ''</execute_bash>'' (drop (length ''<execute_bash>'') rest) = Some (g, post)"
    by (auto simp: match_lazy_def split: if_splits)
  from p obtain t where t: "rest = ''<execute_bash>'' @ t" by (auto simp: prefix_def)
  from split_first_Some [OF s] t have "t = g @ ''</execute_bash>'' @ post" by simp
  then have span: "a = pre @ ''<execute_bash>'' @ g @ ''</execute_bash>'' @ post"
    using r(1) t by simp
  have d: "decode_action a =
      (if strip g = ''exit'' then AgentFinishAction None
       else CmdRunAction (strip g)
              (strip (replace_str a (''<execute_bash>'' @ g @ ''</execute_bash>'') [])))"
    by (simp add: decode_action_def assms Let_def strip_idem del: replace_str.simps)
  show ?thesis using span d by auto
qed

theorem C4_bash_exit_finishes_witness:
  "re_search (match_greedy ''<finish>'' ''</finish>'') ''bye <execute_bash> exit </execute_bash>''
     = None
   \<and> re_search (match_lazy ''<execute_bash>'' ''</execute_bash>'')
         ''bye <execute_bash> exit </execute_bash>'' = Some (''bye '', '' exit '', [])
   \<and> strip '' exit '' = ''exit''
   \<and> decode_action ''bye <execute_bash> exit </execute_bash>'' = AgentFinishAction None
   \<and> re_search (match_greedy ''<finish>'' ''</finish>'') ''<execute_bash>ls -la</execute_bash>''
       = None
   \<and> re_search (match_lazy ''<execute_bash>'' ''</execute_bash>'')
         ''<execute_bash>ls -la</execute_bash>'' = Some ([], ''ls -la'', [])
   \<and> strip ''ls -la'' \<noteq> ''exit''
   \<and> (\<exists>th. decode_action ''<execute_bash>ls -la</execute_bash>''
               = CmdRunAction (strip ''ls -la'') th)"
proof -
  have f1: "re_search (match_greedy ''<finish>'' ''</finish>'')
              ''bye <execute_bash> exit </execute_bash>'' = None"
    by code_simp
  have b1: "re_search (match_lazy ''<execute_bash>'' ''</execute_bash>'')
              ''bye <execute_bash> exit </execute_bash>'' = Some (''bye '', '' exit '', [])"
    by code_simp
  have s1: "strip '' exit '' = ''exit''" by code_simp
  have f2: "re_search (match_greedy ''<finish>'' ''</finish>'')
              ''<execute_bash>ls -la</execute_bash>'' = None"
    by code_simp
  have b2: "re_search (match_lazy ''<execute_bash>'' ''</execute_bash>'')
              ''<execute_bash>ls -la</execute_bash>'' = Some ([], ''ls -la'', [])"
    by code_simp
  have s2: "strip ''ls -la'' \<noteq> ''exit''" by code_simp
  from C4_bash_exit_finishes [OF f1 b1] C4_bash_exit_finishes [OF f2 b2] f1 b1 s1 f2 b2 s2
  show ?thesis by blast
qed

text \<open>
  C5 (repair of a truncated interpreter tag), as stated: for the text
  \<open><execute_ipython>print(1)</execute_ipython\<close> the decoder extracts the code \<open>print(1)\<close>.
  The source appends the closing tag to the text as it is, so the lazy match ends at the
  appended tag and the extracted code keeps the fragment \<open></execute_ipython\<close>.
\<close>

theorem C5_truncated_tag_counterexample:
  "decode_action (parse_response ''<execute_ipython>print(1)</execute_ipython'')
     = IPythonRunCellAction ''print(1)</execute_ipython'' [] jupyter_kernel_init_code
   \<and> code (decode_action (parse_response ''<execute_ipython>print(1)</execute_ipython''))
       \<noteq> ''print(1)''"
  by code_simp

text \<open>
  C5 as amended: for that text the pre-pass appends the closing tag and the decoder returns a
  run-interpreter-cell action whose code is \<open>print(1)</execute_ipython\<close>; the code is
  \<open>print(1)\<close> for the text \<open><execute_ipython>print(1)\<close>, where no part of the closing tag
  was generated.
\<close>

theorem C5_truncated_tag_repair:
  "parse_response ''<execute_ipython>print(1)</execute_ipython''
     = ''<execute_ipython>print(1)</execute_ipython'' @ ''</execute_ipython>''
   \<and> decode_action (parse_response ''<execute_ipython>print(1)</execute_ipython'')
       = IPythonRunCellAction ''print(1)</execute_ipython'' [] jupyter_kernel_init_code
   \<and> parse_response ''<execute_ipython>print(1)''
       = ''<execute_ipython>print(1)'' @ ''</execute_ipython>''
   \<and> decode_action (parse_response ''<execute_ipython>print(1)'')
       = IPythonRunCellAction ''print(1)'' [] jupyter_kernel_init_code"
  by code_simp

section \<open>The observation formatter\<close>

lemma truncate_observation_short:
  "int (length s) \<le> m \<Longrightarrow> truncate_observation s m = s"
  by (simp add: truncate_observation_def)

lemma truncate_observation_long:
  assumes "2 \<le> m" and "m < int (length s)"
  shows "truncate_observation s m
           = take (nat (m div 2)) s @ truncation_marker @ drop (length s - nat (m div 2)) s"
  using assms
  by (auto simp: truncate_observation_def slice_to_def slice_from_def Let_def
                 nat_diff_distrib' nat_add_distrib)

lemma truncate_observation_ends:
  assumes "2 \<le> m" and "m < int (length s)"
  shows "take (nat (m div 2)) (truncate_observation s m) = take (nat (m div 2)) s
       \<and> drop (length (truncate_observation s m) - nat (m div 2)) (truncate_observation s m)
           = drop (length s - nat (m div 2)) s"
proof -
  let ?h = "nat (m div 2)"
  have h: "?h \<le> length s" using assms by linarith
  have r: "truncate_observation s m = take ?h s @ truncation_marker @ drop (length s - ?h) s"
    by (rule truncate_observation_long [OF assms])
  have lt: "length (take ?h s) = ?h" using h by simp
  have ld: "length (drop (length s - ?h) s) = ?h" using h by simp
  have a: "take ?h (truncate_observation s m) = take ?h s"
    unfolding r using lt by simp
  have "length (truncate_observation s m) - ?h = length (take ?h s @ truncation_marker)"
    unfolding r using ld by simp
  then have b: "drop (length (truncate_observation s m) - ?h) (truncate_observation s m)
                  = drop (length s - ?h) s"
    unfolding r by (metis append.assoc append_eq_conv_conj)
  show ?thesis using a b by simp
qed

text \<open>
  C6 (truncation keeps the first and the last \<open>ceiling/2\<close> characters). Every caller
  passes the default ceiling of 10000 characters: a text of at most 10000 characters comes
  back unchanged; a longer one comes back as its first 5000 characters, the marker line and
  its last 5000 characters, so the first and the last 5000 characters of the result are those
  of the original. The same holds for every ceiling \<open>m\<close> of at least 2, with halves of
  \<open>m div 2\<close> characters.
\<close>

theorem C6_truncation_keeps_both_ends:
  "(int (length s) \<le> default_max_chars \<longrightarrow> truncate_observation s default_max_chars = s)
   \<and> (default_max_chars < int (length s) \<longrightarrow>
        truncate_observation s default_max_chars
          = take 5000 s @ truncation_marker @ drop (length s - 5000) s
        \<and> take 5000 (truncate_observation s default_max_chars) = take 5000 s
        \<and> drop (length (truncate_observation s default_max_chars) - 5000)
             (truncate_observation s default_max_chars)
            = drop (length s - 5000) s)
   \<and> (2 \<le> m \<longrightarrow>
        (int (length s) \<le> m \<longrightarrow> truncate_observation s m = s)
        \<and> (m < int (length s) \<longrightarrow>
             truncate_observation s m
               = take (nat (m div 2)) s @ truncation_marker @ drop (length s - nat (m div 2)) s
             \<and> take (nat (m div 2)) (truncate_observation s m) = take (nat (m div 2)) s
             \<and> drop (length (truncate_observation s m) - nat (m div 2))
                  (truncate_observation s m)
                 = drop (length s - nat (m div 2)) s))"
proof -
  have d: "(2::int) \<le> default_max_chars" "nat (default_max_chars div 2) = 5000"
    by (simp_all add: default_max_chars_def)
  have g: "\<And>k. 2 \<le> k \<Longrightarrow> k < int (length s) \<Longrightarrow>
             truncate_observation s k
               = take (nat (k div 2)) s @ truncation_marker @ drop (length s - nat (k div 2)) s
             \<and> take (nat (k div 2)) (truncate_observation s k) = take (nat (k div 2)) s
             \<and> drop (length (truncate_observation s k) - nat (k div 2))
                  (truncate_observation s k)
                 = drop (length s - nat (k div 2)) s"
    using truncate_observation_long truncate_observation_ends by blast
  have dflt: "default_max_chars < int (length s) \<Longrightarrow>
        truncate_observation s default_max_chars
          = take 5000 s @ truncation_marker @ drop (length s - 5000) s
        \<and> take 5000 (truncate_observation s default_max_chars) = take 5000 s
        \<and> drop (length (truncate_observation s default_max_chars) - 5000)
             (truncate_observation s default_max_chars)
            = drop (length s - 5000) s"
    using g [OF d(1), unfolded d(2)] by blast
  show ?thesis
    using truncate_observation_short [of s] g dflt by blast
qed

theorem C6_truncation_keeps_both_ends_witness:
  "int (length ''ab'') \<le> default_max_chars
   \<and> truncate_observation ''ab'' default_max_chars = ''ab''
   \<and> default_max_chars < int (length (replicate 10001 CHR ''a'' @ ''z''))
   \<and> truncate_observation (replicate 10001 CHR ''a'' @ ''z'') default_max_chars
       = replicate 5000 CHR ''a'' @ truncation_marker @ replicate 4999 CHR ''a'' @ ''z''
   \<and> (2::int) \<le> 4
   \<and> int (length ''ab'') \<le> 4
   \<and> truncate_observation ''ab'' 4 = ''ab''
   \<and> 4 < int (length ''abcdef'')
   \<and> truncate_observation ''abcdef'' 4 = ''ab'' @ truncation_marker @ ''ef''
   \<and> take (nat (4 div 2)) (truncate_observation ''abcdef'' 4) = ''ab''
   \<and> drop (length (truncate_observation ''abcdef'' 4) - nat (4 div 2))
        (truncate_observation ''abcdef'' 4) = ''ef''"
proof -
  let ?long = "replicate 10001 CHR ''a'' @ ''z''"
  have s1: "int (length ''ab'') \<le> default_max_chars" by (simp add: default_max_chars_def)
  have l1: "default_max_chars < int (length ?long)" by (simp add: default_max_chars_def)
  have tk: "take 5000 ?long = replicate 5000 CHR ''a''" by simp
  have dr: "drop (length ?long - 5000) ?long = replicate 4999 CHR ''a'' @ ''z''" by simp
  have k: "(2::int) \<le> 4" by simp
  have s2: "int (length ''ab'') \<le> 4" by simp
  have l2: "4 < int (length ''abcdef'')" by simp
  have n: "nat (4 div 2) = 2" by simp
  from C6_truncation_keeps_both_ends [of "''ab''" 4] s1 s2 k
  have a: "truncate_observation ''ab'' default_max_chars = ''ab''"
          "truncate_observation ''ab'' 4 = ''ab''" by blast+
  from C6_truncation_keeps_both_ends [of ?long 4] l1
  have b: "truncate_observation ?long default_max_chars
             = replicate 5000 CHR ''a'' @ truncation_marker @ replicate 4999 CHR ''a'' @ ''z''"
    unfolding tk dr by blast
  from C6_truncation_keeps_both_ends [of "''abcdef''" 4] k l2
  have c: "truncate_observation ''abcdef'' 4
             = take (nat (4 div 2)) ''abcdef'' @ truncation_marker
               @ drop (length ''abcdef'' - nat (4 div 2)) ''abcdef''"
          "take (nat (4 div 2)) (truncate_observation ''abcdef'' 4) = take (nat (4 div 2)) ''abcdef''"
          "drop (length (truncate_observation ''abcdef'' 4) - nat (4 div 2))
             (truncate_observation ''abcdef'' 4)
            = drop (length ''abcdef'' - nat (4 div 2)) ''abcdef''"
    by blast+
  have c': "truncate_observation ''abcdef'' 4 = ''ab'' @ truncation_marker @ ''ef''"
           "take (nat (4 div 2)) (truncate_observation ''abcdef'' 4) = ''ab''"
           "drop (length (truncate_observation ''abcdef'' 4) - nat (4 div 2))
             (truncate_observation ''abcdef'' 4) = ''ef''"
    using c unfolding n by simp_all
  show ?thesis using s1 a l1 b k s2 l2 c' by blast
qed

text \<open>
  The bound on the ceiling matters: with a ceiling of 0 or 1 the half is 0, and the slice
  \<open>observation[-0:]\<close> is the whole text. No caller passes such a ceiling.
\<close>

lemma truncate_observation_half_zero:
  "truncate_observation ''ab'' 1
     = ''\<newline>[... Observation truncated due to length ...]\<newline>ab''"
  by code_simp

section \<open>Observation messages\<close>

lemma split_str_header:
  "sep \<notin> set x \<Longrightarrow> split_str sep (x @ sep # c) = x # split_str sep c"
  by (induction x) auto

lemma split_str_not_Nil: "split_str sep s \<noteq> []"
  by (induction s) (auto split: list.splits)

lemma join_str_Cons: "ls \<noteq> [] \<Longrightarrow> join_str sep (x # ls) = x @ sep @ join_str sep ls"
  by (cases ls) auto

text \<open>
  The interpreter branch puts the header in front, redacts line by line and truncates the
  whole text, header included.
\<close>

lemma ipython_observation_message:
  "get_observation_message (IPythonRunCellObservation c)
     = Some \<lparr>role = ''user'',
             content = truncate_observation
                         (''OBSERVATION:\<newline>''
                          @ join_str ''\<newline>''
                              (map (\<lambda>line. if contains image_marker line then image_placeholder
                                           else line)
                                   (split_str CHR ''\<newline>'' c)))
                         default_max_chars\<rparr>"
proof -
  have h: "\<not> contains image_marker ''OBSERVATION:''" by code_simp
  have s: "split_str CHR ''\<newline>'' (''OBSERVATION:\<newline>'' @ c)
             = ''OBSERVATION:'' # split_str CHR ''\<newline>'' c"
    using split_str_header [of "CHR ''\<newline>''" "''OBSERVATION:''" c] by simp
  show ?thesis
    unfolding get_observation_message_def observation.case Let_def s
    using h by (simp add: join_str_Cons split_str_not_Nil del: contains.simps)
qed

lemma command_observation_message:
  "get_observation_message (CmdOutputObservation c cid ec)
     = Some \<lparr>role = ''user'',
             content = ''OBSERVATION:\<newline>'' @ truncate_observation c default_max_chars
                       @ ''\<newline>[Command '' @ str_int cid @ '' finished with exit code ''
                       @ str_int ec @ '']]''\<rparr>"
  by (simp add: get_observation_message_def)

lemma browser_observation_message:
  "get_observation_message (BrowserOutputObservation c)
     = Some \<lparr>role = ''user'',
             content = ''OBSERVATION:\<newline>'' @ truncate_observation c default_max_chars\<rparr>"
  by (simp add: get_observation_message_def)

text \<open>
  C7 (every observation is rendered as \<open>OBSERVATION:\<close> and its formatted content): the
  source does this for command and browser results, see above. For a summary result it
  returns the content itself, without the header and without truncation.
\<close>

theorem C7_summary_observation_without_header:
  "get_observation_message (SummaryObservation ''done'')
     = Some \<lparr>role = ''user'', content = ''done''\<rparr>
   \<and> get_observation_message (SummaryObservation ''done'')
       \<noteq> Some \<lparr>role = ''user'',
                 content = ''OBSERVATION:\<newline>''
                           @ truncate_observation ''done'' default_max_chars\<rparr>"
  by (simp add: get_observation_message_def)

section \<open>Text without markup\<close>

lemma contains_decomp: "contains sub s \<Longrightarrow> \<exists>p q. s = p @ sub @ q"
proof (induction s)
  case Nil
  then show ?case by simp
next
  case (Cons c cs)
  show ?case
  proof (cases "prefix sub (c # cs)")
    case True
    then obtain q where "c # cs = sub @ q" by (auto simp: prefix_def)
    then have "c # cs = [] @ sub @ q" by simp
    then show ?thesis by blast
  next
    case False
    with Cons obtain p q where "cs = p @ sub @ q" by auto
    then have "c # cs = (c # p) @ sub @ q" by simp
    then show ?thesis by blast
  qed
qed

lemma appended_tag_lazy:
  assumes "contains opn a"
  shows "re_search (match_lazy opn cls) (a @ cls @ r) \<noteq> None"
proof -
  from contains_decomp [OF assms] obtain p q where "a = p @ opn @ q" by blast
  then have "a @ cls @ r = p @ (opn @ q @ cls @ r)" by simp
  then show ?thesis
    using re_search_occurs [of "match_lazy opn cls" "opn @ q @ cls @ r" p]
          match_lazy_occurs [of opn cls q r] by simp
qed

lemma appended_tag_greedy:
  assumes "contains opn a"
  shows "re_search (match_greedy opn cls) (a @ cls @ r) \<noteq> None"
proof -
  from contains_decomp [OF assms] obtain p q where "a = p @ opn @ q" by blast
  then have "a @ cls @ r = p @ (opn @ q @ cls @ r)" by simp
  then show ?thesis
    using re_search_occurs [of "match_greedy opn cls" "opn @ q @ cls @ r" p]
          match_greedy_occurs [of opn cls q r] by simp
qed

lemma parse_response_unfold:
  "parse_response t =
     (let a1 = (if contains ''<execute_bash>'' t \<and> \<not> contains ''</execute_bash>'' t
                then t @ ''</execute_bash>'' else t);
          a2 = (if contains ''<execute_ipython>'' a1 \<and> \<not> contains ''</execute_ipython>'' a1
                then a1 @ ''</execute_ipython>'' else a1)
      in (if contains ''<execute_browse>'' a2 \<and> \<not> contains ''</execute_browse>'' a2
          then a2 @ ''</execute_browse>'' else a2))"
  unfolding parse_response_def Let_def
  by (simp only: fold_simps comp_def id_def append_Cons append_Nil)

text \<open>
  C8 (plain text becomes a message): when none of the four patterns matches the text that the
  decoder searches, the closing-tag pre-pass has appended nothing, and the decoder returns a
  send-message action whose content is the response text itself and which waits for a reply.
  The decoder is a total function: it returns one action for every text.
\<close>

theorem C8_no_tag_gives_message:
  assumes "re_search (match_greedy ''<finish>'' ''</finish>'') (parse_response t) = None"
    and "re_search (match_lazy ''<execute_bash>'' ''</execute_bash>'') (parse_response t) = None"
    and "re_search (match_lazy ''<execute_ipython>'' ''</execute_ipython>'') (parse_response t) = None"
    and "re_search (match_greedy ''<execute_browse>'' ''</execute_browse>'') (parse_response t) = None"
  shows "parse_response t = t \<and> decode_action (parse_response t) = MessageAction t True"
proof -
  define a1 where "a1 = (if contains ''<execute_bash>'' t \<and> \<not> contains ''</execute_bash>'' t
                then t @ ''</execute_bash>'' else t)"
  define a2 where "a2 = (if contains ''<execute_ipython>'' a1 \<and> \<not> contains ''</execute_ipython>'' a1
                then a1 @ ''</execute_ipython>'' else a1)"
  define a3 where "a3 = (if contains ''<execute_browse>'' a2 \<and> \<not> contains ''</execute_browse>'' a2
          then a2 @ ''</execute_browse>'' else a2)"
  have p: "parse_response t = a3"
    unfolding parse_response_unfold Let_def a3_def a2_def a1_def ..
  obtain x where x: "a2 = a1 @ x" unfolding a2_def by (cases "contains ''<execute_ipython>'' a1 \<and> \<not> contains ''</execute_ipython>'' a1") auto
  obtain y where y: "a3 = a2 @ y" unfolding a3_def by (cases "contains ''<execute_browse>'' a2 \<and> \<not> contains ''</execute_browse>'' a2") auto
  have e1: "a1 = t"
  proof (rule ccontr)
    assume n: "a1 \<noteq> t"
    then have c: "contains ''<execute_bash>'' t" and a: "a1 = t @ ''</execute_bash>''"
      unfolding a1_def by (auto split: if_splits)
    have "a3 = t @ ''</execute_bash>'' @ (x @ y)" using a x y by simp
    then show False using appended_tag_lazy [OF c, of "''</execute_bash>''" "x @ y"] assms(2) p
      by simp
  qed
  have e2: "a2 = t"
  proof (rule ccontr)
    assume n: "a2 \<noteq> t"
    then have c: "contains ''<execute_ipython>'' t" and a: "a2 = t @ ''</execute_ipython>''"
      unfolding a2_def e1 by (auto split: if_splits)
    have "a3 = t @ ''</execute_ipython>'' @ y" using a y by simp
    then show False using appended_tag_lazy [OF c, of "''</execute_ipython>''" y] assms(3) p
      by simp
  qed
  have e3: "a3 = t"
  proof (rule ccontr)
    assume n: "a3 \<noteq> t"
    then have c: "contains ''<execute_browse>'' t" and a: "a3 = t @ ''</execute_browse>''"
      unfolding a3_def e2 by (auto split: if_splits)
    have "a3 = t @ ''</execute_browse>'' @ []" using a by simp
    then show False using appended_tag_greedy [OF c, of "''</execute_browse>''" "[]"] assms(4) p
      by simp
  qed
  have "decode_action (parse_response t) = MessageAction (parse_response t) True"
    using assms by (simp add: decode_action_def)
  then show ?thesis using p e3 by simp
qed

theorem C8_no_tag_gives_message_witness:
  "re_search (match_greedy ''<finish>'' ''</finish>'') (parse_response ''Which file?'') = None
   \<and> re_search (match_lazy ''<execute_bash>'' ''</execute_bash>'')
         (parse_response ''Which file?'') = None
   \<and> re_search (match_lazy ''<execute_ipython>'' ''</execute_ipython>'')
         (parse_response ''Which file?'') = None
   \<and> re_search (match_greedy ''<execute_browse>'' ''</execute_browse>'')
         (parse_response ''Which file?'') = None
   \<and> parse_response ''Which file?'' = ''Which file?''
   \<and> decode_action (parse_response ''Which file?'') = MessageAction ''Which file?'' True"
proof -
  have h1: "re_search (match_greedy ''<finish>'' ''</finish>'')
              (parse_response ''Which file?'') = None"
    by code_simp
  have h2: "re_search (match_lazy ''<execute_bash>'' ''</execute_bash>'')
              (parse_response ''Which file?'') = None"
    by code_simp
  have h3: "re_search (match_lazy ''<execute_ipython>'' ''</execute_ipython>'')
              (parse_response ''Which file?'') = None"
    by code_simp
  have h4: "re_search (match_greedy ''<execute_browse>'' ''</execute_browse>'')
              (parse_response ''Which file?'') = None"
    by code_simp
  from C8_no_tag_gives_message [OF h1 h2 h3 h4] h1 h2 h3 h4 show ?thesis by blast
qed


section \<open>The history renderer\<close>

lemma find_snoc:
  "find P (xs @ [x]) = (case find P xs of None \<Rightarrow> (if P x then Some x else None) | Some y \<Rightarrow> Some y)"
  by (induction xs) auto

lemma latest_user_index_props:
  "latest_user_index ms = Some i \<Longrightarrow>
     i < length ms \<and> role (ms ! i) = ''user''
     \<and> (\<forall>j. i < j \<and> j < length ms \<longrightarrow> role (ms ! j) \<noteq> ''user'')"
proof (induction ms arbitrary: i)
  case Nil
  then show ?case by simp
next
  case (Cons m ms)
  show ?case
  proof (cases "latest_user_index ms")
    case None
    have no: "\<And>j. j < length ms \<Longrightarrow> role (ms ! j) \<noteq> ''user''"
    proof -
      have "latest_user_index ms = None \<Longrightarrow> \<forall>x \<in> set ms. role x \<noteq> ''user''"
        by (induction ms) (auto split: option.splits if_splits)
      with None show "\<And>j. j < length ms \<Longrightarrow> role (ms ! j) \<noteq> ''user''" by auto
    qed
    from None Cons.prems have i: "i = 0" and r: "role m = ''user''"
      by (auto split: if_splits)
    have "\<forall>j. 0 < j \<and> j < length (m # ms) \<longrightarrow> role ((m # ms) ! j) \<noteq> ''user''"
    proof (intro allI impI)
      fix j assume "0 < j \<and> j < length (m # ms)"
      then obtain j' where "j = Suc j'" "j' < length ms" by (cases j) auto
      then show "role ((m # ms) ! j) \<noteq> ''user''" using no by simp
    qed
    then show ?thesis using i r by simp
  next
    case (Some i')
    with Cons.prems have i: "i = Suc i'" by simp
    from Cons.IH [OF Some] have ih: "i' < length ms" "role (ms ! i') = ''user''"
      "\<forall>j. i' < j \<and> j < length ms \<longrightarrow> role (ms ! j) \<noteq> ''user''" by auto
    have "\<forall>j. i < j \<and> j < length (m # ms) \<longrightarrow> role ((m # ms) ! j) \<noteq> ''user''"
    proof (intro allI impI)
      fix j assume a: "i < j \<and> j < length (m # ms)"
      then obtain j' where "j = Suc j'" "i' < j'" "j' < length ms" using i by (cases j) auto
      then show "role ((m # ms) ! j) \<noteq> ''user''" using ih(3) by simp
    qed
    then show ?thesis using i ih by simp
  qed
qed

lemma latest_user_index_None:
  "latest_user_index ms = None \<Longrightarrow> \<forall>x \<in> set ms. role x \<noteq> ''user''"
  by (induction ms) (auto split: option.splits if_splits)

lemma latest_user_message_index:
  "latest_user_message ms = map_option ((!) ms) (latest_user_index ms)"
proof (induction ms)
  case Nil
  then show ?case by (simp add: latest_user_message_def)
next
  case (Cons m ms)
  then show ?case
    by (auto simp: latest_user_message_def find_snoc split: option.splits)
qed

lemma get_messages_by_index:
  "get_messages ag st =
     (let base = initial_messages ag @ List.map_filter event_message (history st)
      in case latest_user_index base of
           None \<Rightarrow> base
         | Some i \<Rightarrow>
             if strip (content (base ! i)) = ''/exit'' then base
             else base[i := (base ! i)\<lparr>content := content (base ! i) @ reminder st\<rparr>])"
  by (simp add: get_messages_def Let_def latest_user_message_index split: option.splits)

lemma event_message_role:
  "event_message ev = Some m \<Longrightarrow> role m = ''user'' \<or> role m = ''assistant''"
  by (auto simp: event_message_def get_action_message_def get_observation_message_def Let_def
           split: event.splits action.splits observation.splits if_splits)

lemma event_messages_roles:
  "m \<in> set (List.map_filter event_message h) \<Longrightarrow> role m = ''user'' \<or> role m = ''assistant''"
proof (induction h)
  case Nil
  then show ?case by simp
next
  case (Cons ev h)
  then show ?case using event_message_role [of ev] by (auto split: option.splits)
qed

lemma strip_plain:
  "\<not> isspace c \<Longrightarrow> \<not> isspace d \<Longrightarrow> strip (c # t @ [d]) = c # t @ [d]"
  by (simp add: strip_def)

lemma in_context_example_not_exit: "strip (in_context_example ag) \<noteq> ''/exit''"
proof -
  obtain t where t: "in_context_example ag = CHR ''H'' # t @ [CHR ''!'']"
    by (simp add: in_context_example_def)
  have "strip (CHR ''H'' # t @ [CHR ''!'']) = CHR ''H'' # t @ [CHR ''!'']"
    by (rule strip_plain) (simp_all add: isspace_def)
  then show ?thesis unfolding t by simp
qed


text \<open>
  C9 (the exit sentinel ends the turn), as stated: whenever the latest user message of the
  rendered sequence is \<open>/exit\<close>, the turn returns a finish action. In the source the
  pre-emptive token-limit check stands before the sentinel check: with a configured token
  limit that the prompt exceeds and a condenser that has no summary, the turn on the history
  with the single user message \<open>/exit\<close> raises the context-window-limit error.
\<close>

theorem C9_exit_sentinel_counterexample:
  "latest_user_message (get_messages exhausted_agent exit_state)
     = Some \<lparr>role = ''user'', content = ''/exit''\<rparr>
   \<and> strip ''/exit'' = ''/exit''
   \<and> step exhausted_agent exit_state = Some (Inl ContextWindowLimit, exit_state, 0)"
proof -
  have a: "latest_user_message (get_messages exhausted_agent exit_state)
             = Some \<lparr>role = ''user'', content = ''/exit''\<rparr>"
    by code_simp
  have b: "strip ''/exit'' = ''/exit''" by code_simp
  have p: "preemptive_condense exhausted_agent (get_messages exhausted_agent exit_state)"
    by (simp add: preemptive_condense_def exhausted_agent_def exhausted_condenser_def)
  have r: "retry_with_condense exhausted_agent exit_state = Inl ContextWindowLimit"
    by (simp add: retry_with_condense_def exhausted_agent_def exhausted_condenser_def)
  have c: "step exhausted_agent exit_state = Some (Inl ContextWindowLimit, exit_state, 0)"
    using p r by (simp add: step_def Let_def)
  show ?thesis using a b c by blast
qed


text \<open>
  C9 as amended. Let \<open>base\<close> be the system message, the worked example and the messages
  of the history, and \<open>m\<close> its latest message with role \<open>user\<close>. If the trimmed content
  of \<open>m\<close> is \<open>/exit\<close>, the renderer returns \<open>base\<close> as it is, and the turn, provided
  that the pre-emptive token-limit check does not trigger, returns a finish action, leaves
  the state as it is and calls the completion service 0 times. Otherwise the renderer returns
  \<open>base\<close> with the reminder of \<open>max_iterations - iteration\<close> turns appended to the content
  at the position of \<open>m\<close>, the last position with role \<open>user\<close>, and no other change.
\<close>

theorem C9_exit_sentinel:
  assumes "base = initial_messages ag @ List.map_filter event_message (history st)"
      and "latest_user_message base = Some m"
  shows "(strip (content m) = ''/exit'' \<longrightarrow>
            get_messages ag st = base
            \<and> (\<not> preemptive_condense ag base \<longrightarrow>
                 step ag st = Some (Inr (AgentFinishAction None), st, 0)))
       \<and> (strip (content m) \<noteq> ''/exit'' \<longrightarrow>
            (\<exists>i. i < length base \<and> base ! i = m
                 \<and> (\<forall>j. i < j \<and> j < length base \<longrightarrow> role (base ! j) \<noteq> ''user'')
                 \<and> get_messages ag st = base[i := m\<lparr>content := content m @ reminder st\<rparr>]))"
proof -
  from assms(2) obtain i where i: "latest_user_index base = Some i" and m: "m = base ! i"
    by (auto simp: latest_user_message_index)
  note p = latest_user_index_props [OF i]
  have g: "get_messages ag st =
             (if strip (content m) = ''/exit'' then base
              else base[i := m\<lparr>content := content m @ reminder st\<rparr>])"
    using i m assms(1) by (simp add: get_messages_by_index Let_def)
  have e: "strip (content m) = ''/exit'' \<Longrightarrow> \<not> preemptive_condense ag base
             \<Longrightarrow> step ag st = Some (Inr (AgentFinishAction None), st, 0)"
    using g assms(2) by (simp add: step_def Let_def)
  show ?thesis using g e p m by auto
qed


theorem C9_exit_sentinel_witness:
  "latest_user_message
       (initial_messages (overflowing_agent 0)
        @ List.map_filter event_message (history exit_state))
     = Some \<lparr>role = ''user'', content = ''/exit''\<rparr>
   \<and> strip (content \<lparr>role = ''user'', content = ''/exit''\<rparr>) = ''/exit''
   \<and> \<not> preemptive_condense (overflowing_agent 0)
         (initial_messages (overflowing_agent 0)
          @ List.map_filter event_message (history exit_state))
   \<and> get_messages (overflowing_agent 0) exit_state
       = initial_messages (overflowing_agent 0)
         @ List.map_filter event_message (history exit_state)
   \<and> step (overflowing_agent 0) exit_state
       = Some (Inr (AgentFinishAction None), exit_state, 0)
   \<and> latest_user_message
         (initial_messages (overflowing_agent 0)
          @ List.map_filter event_message (history empty_state))
       = Some \<lparr>role = ''user'', content = in_context_example (overflowing_agent 0)\<rparr>
   \<and> strip (content \<lparr>role = ''user'', content = in_context_example (overflowing_agent 0)\<rparr>)
       \<noteq> ''/exit''
   \<and> (\<exists>i. get_messages (overflowing_agent 0) empty_state
            = (initial_messages (overflowing_agent 0)
               @ List.map_filter event_message (history empty_state))
              [i := \<lparr>role = ''user'',
                      content = in_context_example (overflowing_agent 0)
                                @ ''\<newline>\<newline>ENVIRONMENT REMINDER: You have 100 turns left to complete the task.''\<rparr>])"
proof -
  let ?ag = "overflowing_agent 0"
  let ?b1 = "initial_messages ?ag @ List.map_filter event_message (history exit_state)"
  let ?b2 = "initial_messages ?ag @ List.map_filter event_message (history empty_state)"
  let ?m1 = "\<lparr>role = ''user'', content = ''/exit''\<rparr>"
  let ?m2 = "\<lparr>role = ''user'', content = in_context_example ?ag\<rparr>"
  have l1: "latest_user_message ?b1 = Some ?m1" by code_simp
  have s1: "strip (content ?m1) = ''/exit''" by code_simp
  have p1: "\<not> preemptive_condense ?ag ?b1"
    by (simp add: preemptive_condense_def overflowing_agent_def)
  have l2: "latest_user_message ?b2 = Some ?m2" by code_simp
  have s2: "strip (content ?m2) \<noteq> ''/exit''" by (simp add: in_context_example_not_exit)
  have r: "reminder empty_state
             = ''\<newline>\<newline>ENVIRONMENT REMINDER: You have 100 turns left to complete the task.''"
    by code_simp
  from C9_exit_sentinel [OF refl l1] s1 p1
  have e: "get_messages ?ag exit_state = ?b1
           \<and> step ?ag exit_state = Some (Inr (AgentFinishAction None), exit_state, 0)"
    by blast
  from C9_exit_sentinel [OF refl l2] s2
  obtain i where "get_messages ?ag empty_state
                    = ?b2[i := ?m2\<lparr>content := content ?m2 @ reminder empty_state\<rparr>]"
    by blast
  then have n: "\<exists>i. get_messages ?ag empty_state
                  = ?b2[i := \<lparr>role = ''user'',
                      content = in_context_example ?ag
                                @ ''\<newline>\<newline>ENVIRONMENT REMINDER: You have 100 turns left to complete the task.''\<rparr>]"
    unfolding r by auto
  show ?thesis using l1 s1 p1 e l2 s2 n by blast
qed


text \<open>
  C10 (shape of the rendered list): for every agent and task state, the rendered list is the
  system message, then a message of role \<open>user\<close> that is the worked example, with or
  without the reminder, then messages of role \<open>user\<close> or \<open>assistant\<close> only; some message
  has role \<open>user\<close>; and when no event of the history renders as a user message, the
  reminder is appended to the worked example and the rest is the rendered history. The
  worked example is never the sentinel, whatever the prompt texts are.
\<close>

theorem C10_rendered_list_shape:
  "\<exists>c rest.
     get_messages ag st
       = \<lparr>role = ''system'', content = get_system_message ag\<rparr>
         # \<lparr>role = ''user'', content = c\<rparr> # rest
     \<and> (c = in_context_example ag \<or> c = in_context_example ag @ reminder st)
     \<and> (\<forall>m \<in> set rest. role m = ''user'' \<or> role m = ''assistant'')
     \<and> (\<exists>m \<in> set (get_messages ag st). role m = ''user'')
     \<and> ((\<forall>m \<in> set (List.map_filter event_message (history st)). role m \<noteq> ''user'')
          \<longrightarrow> c = in_context_example ag @ reminder st
              \<and> rest = List.map_filter event_message (history st))"
proof -
  let ?sys = "\<lparr>role = ''system'', content = get_system_message ag\<rparr>"
  let ?ex = "\<lparr>role = ''user'', content = in_context_example ag\<rparr>"
  let ?evs = "List.map_filter event_message (history st)"
  let ?base = "?sys # ?ex # ?evs"
  have base: "initial_messages ag @ ?evs = ?base" by (simp add: initial_messages_def)
  show ?thesis
  proof (cases "latest_user_index ?evs")
    case None
    then have idx: "latest_user_index ?base = Some 1" by simp
    have no: "\<forall>m \<in> set ?evs. role m \<noteq> ''user''" by (rule latest_user_index_None [OF None])
    have g: "get_messages ag st
               = ?sys # \<lparr>role = ''user'', content = in_context_example ag @ reminder st\<rparr> # ?evs"
      unfolding get_messages_by_index base Let_def idx
      by (simp add: in_context_example_not_exit)
    show ?thesis
      unfolding g using event_messages_roles [of _ "history st"] by auto
  next
    case (Some k)
    then have idx: "latest_user_index ?base = Some (Suc (Suc k))" by simp
    from latest_user_index_props [OF Some]
    have k: "k < length ?evs" "role (?evs ! k) = ''user''" by auto
    then have ex: "\<exists>m \<in> set ?evs. role m = ''user''" using nth_mem by blast
    let ?x = "(?evs ! k)\<lparr>content := content (?evs ! k) @ reminder st\<rparr>"
    have rx: "role ?x = ''user''" using k(2) by simp
    have g: "get_messages ag st = ?sys # ?ex # (if strip (content (?evs ! k)) = ''/exit'' then ?evs
                                                else ?evs[k := ?x])"
      unfolding get_messages_by_index base Let_def idx by simp
    have roles: "\<forall>m \<in> set (?evs[k := ?x]). role m = ''user'' \<or> role m = ''assistant''"
    proof
      fix m assume "m \<in> set (?evs[k := ?x])"
      then have "m = ?x \<or> m \<in> set ?evs" using set_update_subset_insert by fastforce
      then show "role m = ''user'' \<or> role m = ''assistant''"
        using rx event_messages_roles [of m "history st"] by auto
    qed
    show ?thesis
    proof (cases "strip (content (?evs ! k)) = ''/exit''")
      case True
      then have g': "get_messages ag st = ?sys # ?ex # ?evs" using g by simp
      show ?thesis unfolding g' using ex event_messages_roles [of _ "history st"] by auto
    next
      case False
      then have g': "get_messages ag st = ?sys # ?ex # ?evs[k := ?x]" using g by simp
      show ?thesis unfolding g' using ex roles by auto
    qed
  qed
qed

theorem C10_rendered_list_shape_witness:
  "List.map_filter event_message (history empty_state) = []
   \<and> get_messages (overflowing_agent 0) empty_state
       = [\<lparr>role = ''system'', content = get_system_message (overflowing_agent 0)\<rparr>,
          \<lparr>role = ''user'',
            content = in_context_example (overflowing_agent 0) @ reminder empty_state\<rparr>]"
proof -
  let ?ag = "overflowing_agent 0"
  have h: "List.map_filter event_message (history empty_state) = []"
    by (simp add: empty_state_def)
  from C10_rendered_list_shape [of ?ag empty_state] obtain c rest where
    g: "get_messages ?ag empty_state
          = \<lparr>role = ''system'', content = get_system_message ?ag\<rparr>
            # \<lparr>role = ''user'', content = c\<rparr> # rest"
    and i: "(\<forall>m \<in> set (List.map_filter event_message (history empty_state)). role m \<noteq> ''user'')
             \<longrightarrow> c = in_context_example ?ag @ reminder empty_state
                 \<and> rest = List.map_filter event_message (history empty_state)"
    by blast
  from i h have "c = in_context_example ?ag @ reminder empty_state" "rest = []" by simp_all
  with g h show ?thesis by simp
qed

end
